theory Spec2Isabelle
  imports Main "HOL-Library.Sublist" "HOL-Library.Product_Lexorder"
begin

section \<open>Article aggregation and README splicing (fetch_recent_content.py)\<close>

text \<open>
  A shallow embedding of the decision logic of \<^verbatim>\<open>fetch_recent_content.py\<close>: the source
  factory, the ranking and limiting of article lists, the markdown writer, the README
  update between the two marker comments, and the aggregation loop of \<^verbatim>\<open>main\<close>.
  The HTTP transport, the XML and JSON parsers and the GitHub client are outside the
  embedding: fetched article lists, the README text and the articles file are inputs.
\<close>

subsection \<open>Python strings and sequences\<close>

text \<open>
  A Python \<^verbatim>\<open>str\<close> is a sequence of Unicode code points, so it is modelled as a list of
  code points (natural numbers), and its length counts code points. A literal of the source
  is written \<open>str ''...''\<close>.
\<close>

type_synonym pystr = "nat list"

abbreviation str :: "string \<Rightarrow> pystr" where
  "str s \<equiv> map of_char s"

text \<open>
  \<^verbatim>\<open>str.isspace\<close> on one code point, which is what \<^verbatim>\<open>str.strip()\<close> without argument
  removes: the Unicode white space of CPython (U+0009..U+000D, U+001C..U+0020, U+0085,
  U+00A0, U+1680, U+2000..U+200A, U+2028, U+2029, U+202F, U+205F, U+3000).
\<close>

definition isspace :: "nat \<Rightarrow> bool" where
  "isspace c \<longleftrightarrow>
     (9 \<le> c \<and> c \<le> 13) \<or> (28 \<le> c \<and> c \<le> 32) \<or> c = 133 \<or> c = 160 \<or> c = 5760 \<or>
     (8192 \<le> c \<and> c \<le> 8202) \<or> c = 8232 \<or> c = 8233 \<or> c = 8239 \<or> c = 8287 \<or> c = 12288"

definition lstrip :: "pystr \<Rightarrow> pystr" where
  "lstrip s = dropWhile isspace s"

definition rstrip :: "pystr \<Rightarrow> pystr" where
  "rstrip s = rev (dropWhile isspace (rev s))"

text \<open>\<^verbatim>\<open>s.strip()\<close>: white space is removed at both ends.\<close>

definition strip :: "pystr \<Rightarrow> pystr" where
  "strip s = rstrip (lstrip s)"

text \<open>
  The first index at which \<open>sub\<close> occurs in \<open>s\<close>, scanning from the left; \<^verbatim>\<open>s.find(sub)\<close>
  is that index, or \<open>-1\<close> when there is none, and \<^verbatim>\<open>sub in s\<close> says whether there is one.
\<close>

fun find_opt :: "'a list \<Rightarrow> 'a list \<Rightarrow> nat option" where
  "find_opt sub [] = (if sub = [] then Some 0 else None)"
| "find_opt sub (c # cs) =
     (if prefix sub (c # cs) then Some 0 else map_option Suc (find_opt sub cs))"

definition py_find :: "'a list \<Rightarrow> 'a list \<Rightarrow> int" where
  "py_find s sub = (case find_opt sub s of None \<Rightarrow> - 1 | Some i \<Rightarrow> int i)"

definition contains :: "'a list \<Rightarrow> 'a list \<Rightarrow> bool" where
  "contains sub s \<longleftrightarrow> find_opt sub s \<noteq> None"

text \<open>
  The slices \<^verbatim>\<open>xs[:n]\<close> and \<^verbatim>\<open>xs[n:]\<close>: a negative bound counts from the end of the
  sequence, and a bound outside the sequence is clamped to it.
\<close>

definition slice_to :: "'a list \<Rightarrow> int \<Rightarrow> 'a list" where
  "slice_to xs n = (if 0 \<le> n then take (nat n) xs else take (nat (int (length xs) + n)) xs)"

definition slice_from :: "'a list \<Rightarrow> int \<Rightarrow> 'a list" where
  "slice_from xs n = (if 0 \<le> n then drop (nat n) xs else drop (nat (int (length xs) + n)) xs)"

subsection \<open>ReadmeUpdater.update\<close>

datatype error = MarkersNotFound

definition start_marker :: pystr where
  "start_marker = str ''<!-- ARTICLES -->''"

definition end_marker :: pystr where
  "end_marker = str ''<!-- /ARTICLES -->''"

definition newline :: nat where
  "newline = 10"

text \<open>
  \<^verbatim>\<open>update\<close> as a function of the README text and of the text read from the articles file.
  The result is the content handed to \<^verbatim>\<open>repo.update_file\<close>, or the \<^verbatim>\<open>ValueError\<close>.
  The markers are local variables of the source; \<open>splice\<close> takes them as arguments and
  \<open>update\<close> fixes them to the source's literals.
\<close>

definition splice :: "pystr \<Rightarrow> pystr \<Rightarrow> pystr \<Rightarrow> pystr \<Rightarrow> error + pystr" where
  "splice readme_content start_m end_m recent_articles =
     (let start_idx = py_find readme_content start_m + int (length start_m);
          end_idx = py_find readme_content end_m
      in if start_idx = - 1 \<or> end_idx = - 1 then Inl MarkersNotFound
         else Inr (strip (slice_to readme_content start_idx) @ [newline, newline] @
                   strip recent_articles @ [newline] @
                   strip (slice_from readme_content end_idx)))"

definition update :: "pystr \<Rightarrow> pystr \<Rightarrow> error + pystr" where
  "update readme_content recent_articles =
     splice readme_content start_marker end_marker recent_articles"

subsection \<open>Articles, ArticleFilter\<close>

text \<open>
  An article is the dictionary built by a source: \<^verbatim>\<open>title\<close> and \<^verbatim>\<open>link\<close> always, the two
  counts only when the source supplies them (Dev.to does, an RSS feed does not).
\<close>

record article =
  title :: pystr
  link :: pystr
  positive_reactions_count :: "int option"
  comments_count :: "int option"

text \<open>
  The sort key \<^verbatim>\<open>(x.get('positive_reactions_count', 0), x.get('comments_count', 0))\<close>;
  Python compares the tuples lexicographically, as the order on pairs does here.
\<close>

definition rank_key :: "article \<Rightarrow> int \<times> int" where
  "rank_key x =
     (case positive_reactions_count x of None \<Rightarrow> 0 | Some v \<Rightarrow> v,
      case comments_count x of None \<Rightarrow> 0 | Some v \<Rightarrow> v)"

text \<open>
  \<^verbatim>\<open>sorted(xs, key=k, reverse=True)\<close> builds a new list. CPython reverses the list, sorts
  it with its stable ascending sort and reverses the result.
\<close>

definition sorted_reverse :: "('a \<Rightarrow> 'k::linorder) \<Rightarrow> 'a list \<Rightarrow> 'a list" where
  "sorted_reverse k xs = rev (sort_key k (rev xs))"

definition get_top_articles :: "article list \<Rightarrow> int \<Rightarrow> article list" where
  "get_top_articles articles top_n =
     (let sorted_articles = sorted_reverse rank_key articles
      in slice_to sorted_articles top_n)"

definition limit_articles :: "article list \<Rightarrow> int \<Rightarrow> article list" where
  "limit_articles articles limit = slice_to articles limit"

subsection \<open>ArticleFilter.get_top_articles on the store of list objects\<close>

text \<open>
  Python lists are objects that a call could change under its caller. The store holds the
  list objects; a reference is an index into it, and a new object is put at the end.
  \<^verbatim>\<open>sorted(articles, ...)\<close> reads the object \<open>articles\<close> refers to and allocates the sorted
  list (\<^verbatim>\<open>articles.sort(...)\<close> would overwrite the object instead); the slice
  \<^verbatim>\<open>sorted_articles[:top_n]\<close> allocates the list that is returned. The result is the
  store after the call and the reference returned.
\<close>

type_synonym store = "article list list"

definition alloc :: "store \<Rightarrow> article list \<Rightarrow> store \<times> nat" where
  "alloc h xs = (h @ [xs], length h)"

definition get_top_articles_store :: "store \<Rightarrow> nat \<Rightarrow> int \<Rightarrow> store \<times> nat" where
  "get_top_articles_store h articles top_n =
     (let (h1, sorted_articles) = alloc h (sorted_reverse rank_key (h ! articles))
      in alloc h1 (slice_to (h1 ! sorted_articles) top_n))"

subsection \<open>ArticleWriter.write_articles\<close>

text \<open>
  The file is opened for writing, so it starts empty; each \<^verbatim>\<open>f.write\<close> appends to it.
  \<open>write_articles\<close> is the content of the file when it is closed.
\<close>

definition f_write :: "pystr \<Rightarrow> pystr \<Rightarrow> pystr" where
  "f_write f s = f @ s"

fun write_loop :: "pystr \<Rightarrow> article list \<Rightarrow> pystr" where
  "write_loop f [] = f"
| "write_loop f (a # articles) =
     write_loop (f_write f (str ''- ['' @ title a @ str '']('' @ link a @ str '')'' @ [newline]))
       articles"

definition write_articles :: "article list \<Rightarrow> pystr" where
  "write_articles articles =
     write_loop (f_write [] (str ''## Articles'' @ [newline, newline])) articles"

subsection \<open>DevToSource.extract_username_from_url, SourceFactory.create_source\<close>

datatype article_source = RSSFeedSource pystr | DevToSource pystr

text \<open>
  \<^verbatim>\<open>re.search(r'dev\.to\/@?([\w\d]+)', profile_url)\<close>. The character class \<^verbatim>\<open>[\w\d]\<close> of
  a \<^verbatim>\<open>str\<close> pattern is decided by the Unicode tables of the Python runtime, which are not
  part of the repository: it is the parameter \<open>wd\<close>. \<open>group1\<close> is the greedy capture
  \<^verbatim>\<open>([\w\d]+)\<close>, which ends the pattern. \<open>match_here\<close> matches the pattern at the start
  of its argument: the literal, then the greedy optional \<^verbatim>\<open>@\<close> (first with the
  \<^verbatim>\<open>@\<close> consumed, then, on failure, without it). The search tries every start position
  from the left and returns group 1 of the first match.
\<close>

definition group1 :: "(nat \<Rightarrow> bool) \<Rightarrow> pystr \<Rightarrow> pystr option" where
  "group1 wd s = (let u = takeWhile wd s in if u = [] then None else Some u)"

definition match_here :: "(nat \<Rightarrow> bool) \<Rightarrow> pystr \<Rightarrow> pystr option" where
  "match_here wd s =
     (if prefix (str ''dev.to/'') s then
        (let r = drop (length (str ''dev.to/'')) s
         in case (case r of c # r' \<Rightarrow> if c = of_char CHR ''@'' then group1 wd r' else None
                            | [] \<Rightarrow> None) of
              Some u \<Rightarrow> Some u
            | None \<Rightarrow> group1 wd r)
      else None)"

fun re_search :: "(nat \<Rightarrow> bool) \<Rightarrow> pystr \<Rightarrow> pystr option" where
  "re_search wd [] = match_here wd []"
| "re_search wd (c # cs) =
     (case match_here wd (c # cs) of Some u \<Rightarrow> Some u | None \<Rightarrow> re_search wd cs)"

definition extract_username_from_url :: "(nat \<Rightarrow> bool) \<Rightarrow> pystr \<Rightarrow> pystr option" where
  "extract_username_from_url wd profile_url =
     (case re_search wd profile_url of Some g \<Rightarrow> Some g | None \<Rightarrow> None)"

text \<open>
  \<^verbatim>\<open>if username:\<close> holds for a string that is neither \<^verbatim>\<open>None\<close> nor empty; every other
  path of \<^verbatim>\<open>create_source\<close> under \<^verbatim>\<open>'dev.to' in url\<close> falls through to \<^verbatim>\<open>return None\<close>.
\<close>

definition create_source :: "(nat \<Rightarrow> bool) \<Rightarrow> pystr \<Rightarrow> article_source option" where
  "create_source wd url =
     (if contains (str ''dev.to'') url then
        (case extract_username_from_url wd url of
           Some username \<Rightarrow> if username \<noteq> [] then Some (DevToSource username) else None
         | None \<Rightarrow> None)
      else Some (RSSFeedSource url))"

text \<open>The class \<^verbatim>\<open>[\w\d]\<close> on ASCII code points: letters, digits and the underscore.\<close>

definition ascii_word :: "nat \<Rightarrow> bool" where
  "ascii_word c \<longleftrightarrow> (48 \<le> c \<and> c \<le> 57) \<or> (65 \<le> c \<and> c \<le> 90) \<or> c = 95 \<or> (97 \<le> c \<and> c \<le> 122)"

subsection \<open>main: aggregation of the fetched articles\<close>

text \<open>
  The loop of \<^verbatim>\<open>main\<close> over the sources that \<^verbatim>\<open>create_source\<close> resolved. Fetching is a
  network call: each source comes with the list its \<^verbatim>\<open>fetch_articles\<close> returned.
  \<open>all_articles\<close> is the accumulator the loop extends.
\<close>

fun is_DevToSource :: "article_source \<Rightarrow> bool" where
  "is_DevToSource (DevToSource u) = True"
| "is_DevToSource (RSSFeedSource u) = False"

fun fetch_loop :: "pystr \<Rightarrow> int \<Rightarrow> (article_source \<times> article list) list \<Rightarrow> article list
    \<Rightarrow> article list" where
  "fetch_loop article_type article_limit [] all_articles = all_articles"
| "fetch_loop article_type article_limit ((source, articles) # rest) all_articles =
     (let articles' =
            (if article_type = str ''top'' \<and> article_limit > 0 \<and> is_DevToSource source
             then get_top_articles articles article_limit else articles)
      in fetch_loop article_type article_limit rest (all_articles @ articles'))"

definition main_articles :: "pystr \<Rightarrow> int \<Rightarrow> (article_source \<times> article list) list \<Rightarrow> article list"
  where
  "main_articles article_type article_limit fetched =
     limit_articles (fetch_loop article_type article_limit fetched []) article_limit"

subsection \<open>Occurrences of a marker\<close>

text \<open>
  The positions at which \<open>sub\<close> occurs in \<open>s\<close>, in increasing order. The source never
  computes them; they state that a document has exactly one occurrence of a marker.
\<close>

definition occurrences :: "'a list \<Rightarrow> 'a list \<Rightarrow> nat list" where
  "occurrences sub s = filter (\<lambda>i. prefix sub (drop i s)) [0..<Suc (length s)]"

section \<open>Properties\<close>

subsection \<open>Slices and the reversed stable sort\<close>

lemma length_slice_to:
  "int (length (slice_to xs n)) =
     (if 0 \<le> n then min n (int (length xs)) else max 0 (int (length xs) + n))"
  by (auto simp: slice_to_def)

lemma slice_to_prefix: "prefix (slice_to xs n) xs"
  by (simp add: slice_to_def take_is_prefix)

lemma length_sorted_reverse: "length (sorted_reverse k xs) = length xs"
  by (simp add: sorted_reverse_def)

lemma sorted_reverse_sorted: "sorted_wrt (\<lambda>a b. k b \<le> k a) (sorted_reverse k xs)"
proof -
  have "sorted (map k (sort_key k (rev xs)))" by simp
  then have "sorted_wrt (\<lambda>a b. k a \<le> k b) (sort_key k (rev xs))"
    by (simp add: sorted_map)
  then show ?thesis
    by (simp add: sorted_reverse_def sorted_wrt_rev)
qed

lemma sorted_reverse_stable:
  "filter (\<lambda>x. k x = v) (sorted_reverse k xs) = filter (\<lambda>x. k x = v) xs"
  by (simp add: sorted_reverse_def rev_filter sort_key_stable flip: rev_filter)

lemma prefix_filter: "prefix xs ys \<Longrightarrow> prefix (filter P xs) (filter P ys)"
  by (auto simp: prefix_def)

lemma sorted_wrt_prefix: "prefix xs ys \<Longrightarrow> sorted_wrt R ys \<Longrightarrow> sorted_wrt R xs"
  by (auto simp: prefix_def sorted_wrt_append)

subsection \<open>ArticleFilter\<close>

text \<open>
  C4, as the code has it. \<open>get_top_articles\<close> returns \<open>min n (length articles)\<close> elements
  for every \<open>n \<ge> 0\<close>, so none for \<open>n = 0\<close>. For \<open>n < 0\<close> the slice \<^verbatim>\<open>[:n]\<close> counts from the
  end: the result has \<open>max 0 (length articles + n)\<close> elements, which is not the empty
  sequence as soon as the list is longer than \<open>-n\<close>. (\<^verbatim>\<open>main\<close> calls the function only under
  \<^verbatim>\<open>article_limit > 0\<close>.)
\<close>

theorem get_top_articles_length:
  "int (length (get_top_articles articles n)) =
     (if 0 \<le> n then min n (int (length articles))
      else max 0 (int (length articles) + n))"
  by (simp add: get_top_articles_def length_slice_to length_sorted_reverse)

theorem get_top_articles_negative_counterexample:
  "get_top_articles
     [\<lparr>title = str ''A'', link = str ''a'', positive_reactions_count = Some 1, comments_count = Some 0\<rparr>,
      \<lparr>title = str ''B'', link = str ''b'', positive_reactions_count = Some 2, comments_count = Some 0\<rparr>]
     (- 1)
   = [\<lparr>title = str ''B'', link = str ''b'', positive_reactions_count = Some 2, comments_count = Some 0\<rparr>] \<and>
   get_top_articles
     [\<lparr>title = str ''A'', link = str ''a'', positive_reactions_count = Some 1, comments_count = Some 0\<rparr>,
      \<lparr>title = str ''B'', link = str ''b'', positive_reactions_count = Some 2, comments_count = Some 0\<rparr>]
     (- 1)
   \<noteq> []"
  by (simp add: get_top_articles_def sorted_reverse_def slice_to_def rank_key_def)

text \<open>
  C5, as the code has it. \<open>limit_articles\<close> always returns a prefix of its input. Its length
  is \<open>min n (length articles)\<close> for \<open>n \<ge> 0\<close>: empty for \<open>n = 0\<close>, the whole sequence
  for \<open>n\<close> at or beyond the length. For \<open>n < 0\<close> the slice \<^verbatim>\<open>[:n]\<close> drops the last \<open>-n\<close>
  elements, so the length is \<open>max 0 (length articles + n)\<close> and not \<open>0\<close>.
\<close>

theorem limit_articles_prefix_length:
  "prefix (limit_articles articles n) articles \<and>
   int (length (limit_articles articles n)) =
     (if 0 \<le> n then min n (int (length articles))
      else max 0 (int (length articles) + n))"
  by (simp add: limit_articles_def length_slice_to slice_to_prefix)

theorem limit_articles_negative_counterexample:
  "limit_articles
     [\<lparr>title = str ''A'', link = str ''a'', positive_reactions_count = None, comments_count = None\<rparr>,
      \<lparr>title = str ''B'', link = str ''b'', positive_reactions_count = None, comments_count = None\<rparr>]
     (- 1)
   = [\<lparr>title = str ''A'', link = str ''a'', positive_reactions_count = None, comments_count = None\<rparr>] \<and>
   limit_articles
     [\<lparr>title = str ''A'', link = str ''a'', positive_reactions_count = None, comments_count = None\<rparr>,
      \<lparr>title = str ''B'', link = str ''b'', positive_reactions_count = None, comments_count = None\<rparr>]
     (- 1)
   \<noteq> []"
  by (simp add: limit_articles_def slice_to_def)

lemma rank_key_le_iff:
  "rank_key y \<le> rank_key x \<longleftrightarrow>
     (case positive_reactions_count y of None \<Rightarrow> 0 | Some v \<Rightarrow> v)
       < (case positive_reactions_count x of None \<Rightarrow> 0 | Some v \<Rightarrow> v) \<or>
     (case positive_reactions_count y of None \<Rightarrow> 0 | Some v \<Rightarrow> v)
       = (case positive_reactions_count x of None \<Rightarrow> 0 | Some v \<Rightarrow> v) \<and>
     (case comments_count y of None \<Rightarrow> 0 | Some v \<Rightarrow> v)
       \<le> (case comments_count x of None \<Rightarrow> 0 | Some v \<Rightarrow> v)"
  by (auto simp: rank_key_def)

lemma rank_key_eq_iff:
  "rank_key x = (p, q) \<longleftrightarrow>
     (case positive_reactions_count x of None \<Rightarrow> 0 | Some v \<Rightarrow> v) = p \<and>
     (case comments_count x of None \<Rightarrow> 0 | Some v \<Rightarrow> v) = q"
  by (auto simp: rank_key_def)

lemma get_top_articles_store_eq:
  "a < length h \<Longrightarrow>
   get_top_articles_store h a n =
     (h @ [sorted_reverse rank_key (h ! a), get_top_articles (h ! a) n], Suc (length h))"
  by (simp add: get_top_articles_store_def alloc_def get_top_articles_def nth_append)

text \<open>
  C6. For \<open>n \<ge> 0\<close>, the call \<open>get_top_articles(articles, n)\<close> leaves every list object
  that existed before it as it was, the input list among them (the input list is not
  mutated), and returns a list that is sorted non-increasingly by the pair
  (\<^verbatim>\<open>positive_reactions_count\<close>, \<^verbatim>\<open>comments_count\<close>), an absent count being \<open>0\<close>: of two
  articles, the earlier one has more reactions, or as many reactions and at least as many
  comments. The sort is stable: the returned articles with a given pair of counts are, in
  the same order, the first articles of the input with that pair, so two articles with
  equal pairs keep their relative order.
\<close>

theorem get_top_articles_sorted_stable:
  assumes "0 \<le> n" and "a < length h"
  shows "case get_top_articles_store h a n of (h', r) \<Rightarrow>
           take (length h) h' = h \<and> h' ! a = h ! a \<and>
           r < length h' \<and> h' ! r = get_top_articles (h ! a) n \<and>
           sorted_wrt (\<lambda>x y.
               (case positive_reactions_count y of None \<Rightarrow> 0 | Some v \<Rightarrow> v)
                 < (case positive_reactions_count x of None \<Rightarrow> 0 | Some v \<Rightarrow> v) \<or>
               (case positive_reactions_count y of None \<Rightarrow> 0 | Some v \<Rightarrow> v)
                 = (case positive_reactions_count x of None \<Rightarrow> 0 | Some v \<Rightarrow> v) \<and>
               (case comments_count y of None \<Rightarrow> 0 | Some v \<Rightarrow> v)
                 \<le> (case comments_count x of None \<Rightarrow> 0 | Some v \<Rightarrow> v))
             (h' ! r) \<and>
           (\<forall>p q. prefix
              (filter (\<lambda>x.
                  (case positive_reactions_count x of None \<Rightarrow> 0 | Some v \<Rightarrow> v) = p \<and>
                  (case comments_count x of None \<Rightarrow> 0 | Some v \<Rightarrow> v) = q) (h' ! r))
              (filter (\<lambda>x.
                  (case positive_reactions_count x of None \<Rightarrow> 0 | Some v \<Rightarrow> v) = p \<and>
                  (case comments_count x of None \<Rightarrow> 0 | Some v \<Rightarrow> v) = q) (h ! a)))"
proof -
  let ?xs = "h ! a"
  let ?res = "get_top_articles ?xs n"
  have p: "prefix ?res (sorted_reverse rank_key ?xs)"
    by (simp add: get_top_articles_def slice_to_prefix)
  have "sorted_wrt (\<lambda>x y. rank_key y \<le> rank_key x) ?res"
    using p sorted_reverse_sorted by (rule sorted_wrt_prefix)
  then have srt: "sorted_wrt (\<lambda>x y.
               (case positive_reactions_count y of None \<Rightarrow> 0 | Some v \<Rightarrow> v)
                 < (case positive_reactions_count x of None \<Rightarrow> 0 | Some v \<Rightarrow> v) \<or>
               (case positive_reactions_count y of None \<Rightarrow> 0 | Some v \<Rightarrow> v)
                 = (case positive_reactions_count x of None \<Rightarrow> 0 | Some v \<Rightarrow> v) \<and>
               (case comments_count y of None \<Rightarrow> 0 | Some v \<Rightarrow> v)
                 \<le> (case comments_count x of None \<Rightarrow> 0 | Some v \<Rightarrow> v)) ?res"
    by (simp only: rank_key_le_iff)
  have stab: "prefix
              (filter (\<lambda>x.
                  (case positive_reactions_count x of None \<Rightarrow> 0 | Some v \<Rightarrow> v) = p \<and>
                  (case comments_count x of None \<Rightarrow> 0 | Some v \<Rightarrow> v) = q) ?res)
              (filter (\<lambda>x.
                  (case positive_reactions_count x of None \<Rightarrow> 0 | Some v \<Rightarrow> v) = p \<and>
                  (case comments_count x of None \<Rightarrow> 0 | Some v \<Rightarrow> v) = q) ?xs)" for p q
  proof -
    have "prefix (filter (\<lambda>x. rank_key x = (p, q)) ?res)
                 (filter (\<lambda>x. rank_key x = (p, q)) ?xs)"
      using prefix_filter[OF p, of "\<lambda>x. rank_key x = (p, q)"]
      by (simp only: sorted_reverse_stable)
    then show ?thesis by (simp only: rank_key_eq_iff)
  qed
  show ?thesis
    unfolding get_top_articles_store_eq[OF assms(2)]
    using assms(2) srt stab by (simp add: nth_append)
qed

theorem get_top_articles_sorted_stable_witness:
  "(0::int) \<le> 1 \<and> (0::nat) < length
     [[\<lparr>title = str ''A'', link = str ''a'', positive_reactions_count = Some 7, comments_count = None\<rparr>,
       \<lparr>title = str ''B'', link = str ''b'', positive_reactions_count = Some 7, comments_count = Some 9\<rparr>]] \<and>
   get_top_articles_store
     [[\<lparr>title = str ''A'', link = str ''a'', positive_reactions_count = Some 7, comments_count = None\<rparr>,
       \<lparr>title = str ''B'', link = str ''b'', positive_reactions_count = Some 7, comments_count = Some 9\<rparr>]]
     0 1
   = ([[\<lparr>title = str ''A'', link = str ''a'', positive_reactions_count = Some 7, comments_count = None\<rparr>,
        \<lparr>title = str ''B'', link = str ''b'', positive_reactions_count = Some 7, comments_count = Some 9\<rparr>],
       [\<lparr>title = str ''B'', link = str ''b'', positive_reactions_count = Some 7, comments_count = Some 9\<rparr>,
        \<lparr>title = str ''A'', link = str ''a'', positive_reactions_count = Some 7, comments_count = None\<rparr>],
       [\<lparr>title = str ''B'', link = str ''b'', positive_reactions_count = Some 7, comments_count = Some 9\<rparr>]],
      2)"
proof -
  have h1: "(0::int) \<le> 1" by simp
  have h2: "(0::nat) < length
     [[\<lparr>title = str ''A'', link = str ''a'', positive_reactions_count = Some 7, comments_count = None\<rparr>,
       \<lparr>title = str ''B'', link = str ''b'', positive_reactions_count = Some 7, comments_count = Some 9\<rparr>]]"
    by simp
  show ?thesis
    using h1 h2 get_top_articles_sorted_stable [OF h1 h2]
    by (simp add: get_top_articles_store_def alloc_def get_top_articles_def sorted_reverse_def
        slice_to_def rank_key_def)
qed

subsection \<open>main\<close>

lemma fetch_loop_concat:
  "fetch_loop t l fetched acc =
     acc @ concat (map (\<lambda>(source, articles).
        if is_DevToSource source \<and> t = str ''top'' \<and> 0 < l
        then get_top_articles articles l else articles) fetched)"
  by (induction t l fetched acc rule: fetch_loop.induct) (auto simp: Let_def)

text \<open>
  C7. The articles that \<^verbatim>\<open>main\<close> hands to the writer: each source's list is replaced by
  \<open>get_top_articles\<close> of it, with the global limit as bound, exactly when the source is a
  \<open>DevToSource\<close>, the article type is the literal \<^verbatim>\<open>top\<close> and the limit is positive, and is
  taken as fetched otherwise; the lists are concatenated in source order; and
  \<open>limit_articles\<close> cuts the aggregate with the same limit.
\<close>

theorem main_articles_policy:
  "main_articles article_type article_limit fetched =
     limit_articles
       (concat (map (\<lambda>(source, articles).
          if is_DevToSource source \<and> article_type = str ''top'' \<and> 0 < article_limit
          then get_top_articles articles article_limit else articles) fetched))
       article_limit"
  by (simp add: main_articles_def fetch_loop_concat)

subsection \<open>SourceFactory\<close>

lemma group1_nonempty: "group1 wd s = Some u \<Longrightarrow> u \<noteq> []"
  by (auto simp: group1_def Let_def split: if_splits)

lemma match_here_nonempty: "match_here wd s = Some u \<Longrightarrow> u \<noteq> []"
  by (auto simp: match_here_def Let_def split: if_splits option.splits list.splits
      dest: group1_nonempty)

lemma re_search_nonempty: "re_search wd s = Some u \<Longrightarrow> u \<noteq> []"
  by (induction s) (auto split: option.splits dest: match_here_nonempty)

lemma extract_username_nonempty: "extract_username_from_url wd url = Some u \<Longrightarrow> u \<noteq> []"
  by (auto simp: extract_username_from_url_def split: option.splits dest: re_search_nonempty)

text \<open>
  C8. \<open>create_source\<close> first asks whether the URL contains \<^verbatim>\<open>dev.to\<close>. If it does, the
  result is a \<open>DevToSource\<close> with the extracted username when the extraction succeeds, and
  nothing when it fails; an extracted username is never empty, so the truth test of the
  source never drops one. If it does not, the result is an \<open>RSSFeedSource\<close> of the URL,
  whatever the URL is.
\<close>

theorem create_source_cases:
  "create_source wd url =
     (if contains (str ''dev.to'') url
      then (case extract_username_from_url wd url of
              Some username \<Rightarrow> Some (DevToSource username)
            | None \<Rightarrow> None)
      else Some (RSSFeedSource url))"
  by (auto simp: create_source_def split: option.splits dest: extract_username_nonempty)

theorem create_source_cases_witness:
  "create_source ascii_word (str ''https://dev.to/@alice'') = Some (DevToSource (str ''alice'')) \<and>
   create_source ascii_word (str ''https://dev.to/'') = None \<and>
   create_source ascii_word (str ''https://example.com/feed.xml'')
     = Some (RSSFeedSource (str ''https://example.com/feed.xml''))"
  using create_source_cases [of ascii_word "str ''https://dev.to/@alice''"]
    create_source_cases [of ascii_word "str ''https://dev.to/''"]
    create_source_cases [of ascii_word "str ''https://example.com/feed.xml''"]
  by (simp add: contains_def extract_username_from_url_def match_here_def group1_def
      ascii_word_def)

subsection \<open>ArticleWriter\<close>

lemma write_loop_append:
  "write_loop f articles =
     f @ concat (map (\<lambda>a. str ''- ['' @ title a @ str '']('' @ link a @ str '')'' @ [newline])
                  articles)"
  by (induction articles arbitrary: f) (simp_all add: f_write_def)

text \<open>
  C9. The file written by \<open>write_articles\<close> is the heading line \<^verbatim>\<open>## Articles\<close>, an empty
  line, and then, for each article in input order, the line \<^verbatim>\<open>- [<title>](<link>)\<close> with
  the code points of the title and of the link as they are: nothing is escaped.
\<close>

theorem write_articles_render:
  "write_articles articles =
     str ''## Articles'' @ [newline] @ [newline] @
     concat (map (\<lambda>a. str ''- ['' @ title a @ str '']('' @ link a @ str '')'' @ [newline])
               articles)"
  unfolding write_articles_def write_loop_append by (simp add: f_write_def)

subsection \<open>The first occurrence of a substring\<close>

lemma find_opt_Nil [simp]: "find_opt [] s = Some 0"
  by (cases s) simp_all

lemma find_opt_SomeD:
  "find_opt sub s = Some i \<Longrightarrow> i \<le> length s \<and> prefix sub (drop i s)"
  by (induction s arbitrary: i) (auto split: if_splits)

lemma find_opt_least:
  "find_opt sub s = Some i \<Longrightarrow> j < i \<Longrightarrow> \<not> prefix sub (drop j s)"
proof (induction s arbitrary: i j)
  case Nil
  then show ?case by (simp split: if_splits)
next
  case (Cons c cs)
  then show ?case by (cases j) (auto split: if_splits)
qed

lemma find_opt_le:
  "prefix sub (drop i s) \<Longrightarrow> i \<le> length s \<Longrightarrow> \<exists>k\<le>i. find_opt sub s = Some k"
proof (induction s arbitrary: i)
  case Nil
  then show ?case by simp
next
  case (Cons c cs)
  show ?case
  proof (cases "prefix sub (c # cs)")
    case True
    then show ?thesis by simp
  next
    case False
    with Cons.prems obtain i' where i: "i = Suc i'" by (cases i) auto
    with Cons.prems have "prefix sub (drop i' cs)" "i' \<le> length cs" by simp_all
    from Cons.IH[OF this] obtain k where "k \<le> i'" "find_opt sub cs = Some k" by blast
    with False i show ?thesis by simp
  qed
qed

lemma find_optI:
  assumes "prefix sub (drop i s)" "i \<le> length s" "\<And>j. j < i \<Longrightarrow> \<not> prefix sub (drop j s)"
  shows "find_opt sub s = Some i"
proof -
  from find_opt_le[OF assms(1,2)] obtain k where k: "k \<le> i" "find_opt sub s = Some k" by blast
  from find_opt_SomeD[OF k(2)] have "prefix sub (drop k s)" by simp
  with assms(3)[of k] k(1) have "k = i" by (cases "k < i") auto
  with k show ?thesis by simp
qed

lemma find_opt_None_iff: "find_opt sub s = None \<longleftrightarrow> \<not> sublist sub s"
  by (induction s) (auto simp: sublist_Cons_right)

lemma contains_iff_sublist: "contains sub s \<longleftrightarrow> sublist sub s"
  by (simp add: contains_def find_opt_None_iff)

lemma prefix_sep: "c \<notin> set sub \<Longrightarrow> prefix sub (A @ c # B) \<longleftrightarrow> prefix sub A"
  by (auto simp: prefix_append prefix_Cons)

lemma find_opt_sep:
  "c \<notin> set sub \<Longrightarrow>
   find_opt sub (A @ c # B) =
     (case find_opt sub A of Some i \<Rightarrow> Some i
      | None \<Rightarrow> map_option (\<lambda>i. i + length A + 1) (find_opt sub B))"
proof (induction A)
  case Nil
  then show ?case by (cases sub) (auto simp: option.map_comp comp_def)
next
  case (Cons a A)
  have "prefix sub (a # A @ c # B) \<longleftrightarrow> prefix sub (a # A)"
    using prefix_sep[OF Cons.prems, of "a # A" B] by simp
  with Cons show ?case
    by (auto simp: option.map_comp comp_def split: option.splits)
qed

subsection \<open>Stripping white space\<close>

lemma lstrip_append_keep: "ys \<noteq> [] \<Longrightarrow> \<not> isspace (hd ys) \<Longrightarrow> lstrip (xs @ ys) = lstrip xs @ ys"
  by (cases ys) (auto simp: lstrip_def dropWhile_append)

lemma rstrip_append_keep: "ys \<noteq> [] \<Longrightarrow> \<not> isspace (last ys) \<Longrightarrow> rstrip (xs @ ys) = xs @ ys"
  by (cases ys rule: rev_cases) (auto simp: rstrip_def)

lemma rstrip_append_front:
  "ys \<noteq> [] \<Longrightarrow> \<not> isspace (last ys) \<Longrightarrow> rstrip (ys @ xs) = ys @ rstrip xs"
  by (cases ys rule: rev_cases) (auto simp: rstrip_def dropWhile_append)

lemma lstrip_idem: "lstrip (lstrip s) = lstrip s"
  by (simp add: lstrip_def)

lemma rstrip_idem: "rstrip (rstrip s) = rstrip s"
  by (simp add: rstrip_def)

lemma strip_keep_end:
  assumes "ys \<noteq> []" "\<not> isspace (hd ys)" "\<not> isspace (last ys)"
  shows "strip (xs @ ys) = lstrip xs @ ys"
  using assms by (simp add: strip_def lstrip_append_keep rstrip_append_keep)

lemma strip_keep_front:
  assumes "ys \<noteq> []" "\<not> isspace (hd ys)" "\<not> isspace (last ys)"
  shows "strip (ys @ xs) = ys @ rstrip xs"
proof -
  have "lstrip (ys @ xs) = ys @ xs"
    using assms by (cases ys) (auto simp: lstrip_def)
  then show ?thesis using assms by (simp add: strip_def rstrip_append_front)
qed

lemma sublist_strip: "sublist (strip s) s"
proof -
  have "sublist (rstrip (lstrip s)) (lstrip s)"
    unfolding rstrip_def
    by (metis prefix_imp_sublist rev_rev_ident suffix_dropWhile suffix_to_prefix)
  moreover have "sublist (lstrip s) s"
    unfolding lstrip_def by (simp add: suffix_dropWhile)
  ultimately show ?thesis unfolding strip_def by (rule sublist_order.order_trans)
qed

subsection \<open>The markers\<close>

lemma length_start_marker: "length start_marker = 17"
  by (simp add: start_marker_def)

lemma length_end_marker: "length end_marker = 18"
  by (simp add: end_marker_def)

lemma start_marker_ends:
  "start_marker \<noteq> []" "\<not> isspace (hd start_marker)" "\<not> isspace (last start_marker)"
  by (simp_all add: start_marker_def isspace_def)

lemma end_marker_ends:
  "end_marker \<noteq> []" "\<not> isspace (hd end_marker)" "\<not> isspace (last end_marker)"
  by (simp_all add: end_marker_def isspace_def)

lemma newline_notin_markers:
  "newline \<notin> set start_marker" "newline \<notin> set end_marker"
  by (simp_all add: start_marker_def end_marker_def newline_def)

subsection \<open>Single occurrences and the order of the markers\<close>

lemma set_occurrences:
  "set (occurrences sub doc) = {i. i \<le> length doc \<and> prefix sub (drop i doc)}"
  unfolding occurrences_def set_filter set_upt by auto

lemma occurrences_single_find:
  assumes "occurrences sub doc = [i]"
  shows "find_opt sub doc = Some i"
proof (rule find_optI)
  have "i \<in> set (occurrences sub doc)" using assms by simp
  then show "prefix sub (drop i doc)" "i \<le> length doc"
    by (simp_all add: set_occurrences)
next
  fix j assume j: "j < i"
  have il: "i \<in> set (occurrences sub doc)" using assms by simp
  show "\<not> prefix sub (drop j doc)"
  proof
    assume "prefix sub (drop j doc)"
    with j il have "j \<in> set (occurrences sub doc)" by (simp add: set_occurrences)
    with assms j show False by simp
  qed
qed

lemma markers_no_overlap:
  assumes "prefix start_marker (drop s doc)" "prefix end_marker (drop e doc)" "s < e"
  shows "s + length start_marker \<le> e"
proof (rule ccontr)
  assume "\<not> s + length start_marker \<le> e"
  then have k: "e - s < length start_marker" "0 < e - s" using assms(3) by simp_all
  from assms(1) obtain rest where r: "drop s doc = start_marker @ rest" by (auto simp: prefix_def)
  have "drop e doc = drop (e - s) (drop s doc)" using assms(3) by simp
  also have "\<dots> = drop (e - s) start_marker @ rest" using r k by simp
  finally have de: "drop e doc = drop (e - s) start_marker @ rest" .
  have ne: "drop (e - s) start_marker \<noteq> []" using k by simp
  from assms(2) have "hd (drop e doc) = hd end_marker"
    using end_marker_ends(1) by (auto simp: prefix_def)
  then have "hd end_marker = hd (drop (e - s) start_marker)" using de ne by simp
  also have "\<dots> \<in> set (drop (e - s) start_marker)" using ne by simp
  also have "\<dots> \<subseteq> set (drop 1 start_marker)"
    using k(2) by (intro set_drop_subset_set_drop) simp
  finally show False by (simp add: start_marker_def end_marker_def)
qed

subsection \<open>ReadmeUpdater.update: when it raises\<close>

lemma py_find_ge: "- 1 \<le> py_find s sub"
  by (simp add: py_find_def split: option.splits)

lemma start_idx_never_minus_one: "py_find s sub + int (length sub) \<noteq> - 1"
proof (cases sub)
  case Nil
  then show ?thesis by (simp add: py_find_def)
next
  case (Cons a list)
  then show ?thesis using py_find_ge[of s sub] by simp
qed

lemma splice_error_iff:
  "splice doc sm em r = Inl MarkersNotFound \<longleftrightarrow> \<not> contains em doc"
  using start_idx_never_minus_one[of doc sm]
  by (auto simp: splice_def Let_def contains_def py_find_def split: option.splits)

text \<open>
  C1. The claim asks for the error when either marker is absent. The source tests
  \<^verbatim>\<open>start_idx == -1\<close> after the length of the start marker has been added to the result
  of \<^verbatim>\<open>find\<close>, so that test never holds (\<open>start_idx_never_minus_one\<close>) and the error
  is raised exactly when the end marker is absent (\<open>splice_error_iff\<close>). On a README with
  the end marker and without the start marker, \<open>update\<close> raises nothing and writes a
  document: the first 16 code points of the README stand where the text up to the start
  marker should.
\<close>

theorem update_start_marker_absent:
  "find_opt start_marker (str ''<!-- /ARTICLES -->'') = None \<and>
   update (str ''<!-- /ARTICLES -->'') (str ''x'')
     = Inr (str ''<!-- /ARTICLES -'' @ [newline, newline] @ str ''x'' @ [newline] @
            str ''<!-- /ARTICLES -->'')"
  by (simp add: update_def splice_def py_find_def start_marker_def end_marker_def slice_to_def
      slice_from_def strip_def lstrip_def rstrip_def isspace_def newline_def)

subsection \<open>ReadmeUpdater.update: the spliced document\<close>

lemma splice_found:
  assumes "find_opt sm doc = Some s" "find_opt em doc = Some e"
  shows "splice doc sm em r =
           Inr (strip (take (s + length sm) doc) @ [newline, newline] @ strip r @ [newline] @
                strip (drop e doc))"
  using assms
  by (simp add: splice_def Let_def py_find_def slice_to_def slice_from_def nat_add_distrib)

lemma take_through_occurrence:
  assumes "find_opt sub doc = Some i"
  shows "take (i + length sub) doc = take i doc @ sub" "i + length sub \<le> length doc"
proof -
  from find_opt_SomeD[OF assms] obtain rest where r: "drop i doc = sub @ rest" and "i \<le> length doc"
    by (auto simp: prefix_def)
  have "take (i + length sub) doc = take i doc @ take (length sub) (drop i doc)"
    by (simp add: take_add)
  then show "take (i + length sub) doc = take i doc @ sub" using r by simp
  have "length (drop i doc) = length sub + length rest" using r by simp
  then show "i + length sub \<le> length doc" using \<open>i \<le> length doc\<close> by simp
qed

lemma drop_at_occurrence:
  assumes "find_opt sub doc = Some i"
  shows "drop i doc = sub @ drop (i + length sub) doc"
proof -
  from find_opt_SomeD[OF assms] obtain rest where r: "drop i doc = sub @ rest"
    by (auto simp: prefix_def)
  have "drop (i + length sub) doc = drop (length sub) (drop i doc)"
    by (simp add: add.commute)
  then show ?thesis using r by simp
qed

lemma strip_through_start_marker:
  assumes "find_opt start_marker doc = Some s"
  shows "strip (take (s + length start_marker) doc) = lstrip (take s doc) @ start_marker"
  using take_through_occurrence(1)[OF assms] start_marker_ends
  by (simp add: strip_keep_end)

lemma strip_from_end_marker:
  assumes "find_opt end_marker doc = Some e"
  shows "strip (drop e doc) = end_marker @ rstrip (drop (e + length end_marker) doc)"
  using drop_at_occurrence[OF assms] end_marker_ends
  by (metis strip_keep_front)

lemma update_found:
  assumes "find_opt start_marker doc = Some s" "find_opt end_marker doc = Some e"
  shows "update doc r =
           Inr (lstrip (take s doc) @ start_marker @ [newline, newline] @ strip r @ [newline] @
                end_marker @ rstrip (drop (e + length end_marker) doc))"
  unfolding update_def splice_found[OF assms]
    strip_through_start_marker[OF assms(1)] strip_from_end_marker[OF assms(2)]
  by simp

lemma find_opt_take:
  assumes "find_opt sub doc = Some i" "i + length sub \<le> n"
  shows "find_opt sub (take n doc) = Some i"
proof (rule find_optI)
  from find_opt_SomeD[OF assms(1)] obtain rest where r: "drop i doc = sub @ rest"
    and il: "i \<le> length doc" by (auto simp: prefix_def)
  have "drop i (take n doc) = take (n - i) (drop i doc)" by (simp add: drop_take)
  also have "\<dots> = sub @ take (n - i - length sub) rest" using r assms(2) by simp
  finally show "prefix sub (drop i (take n doc))" by simp
  show "i \<le> length (take n doc)" using il assms(2) by simp
next
  fix j assume "j < i"
  then have "\<not> prefix sub (drop j doc)" by (rule find_opt_least[OF assms(1)])
  moreover have "prefix (drop j (take n doc)) (drop j doc)"
    by (simp add: drop_take take_is_prefix)
  ultimately show "\<not> prefix sub (drop j (take n doc))"
    using prefix_order.order_trans by blast
qed

lemma find_opt_drop_front:
  assumes "find_opt sub (w @ t) = Some i" "length w \<le> i"
  shows "find_opt sub t = Some (i - length w)"
proof (rule find_optI)
  from find_opt_SomeD[OF assms(1)] have "prefix sub (drop i (w @ t))" "i \<le> length (w @ t)"
    by simp_all
  then show "prefix sub (drop (i - length w) t)" "i - length w \<le> length t"
    using assms(2) by simp_all
next
  fix j assume "j < i - length w"
  then have "length w + j < i" by simp
  from find_opt_least[OF assms(1) this] show "\<not> prefix sub (drop j t)" by simp
qed

lemma first_occurrence_within:
  assumes "find_opt sub doc = Some i" "sublist sub (take n doc)"
  shows "i + length sub \<le> n"
proof -
  from assms(2) obtain a b where ab: "take n doc = a @ sub @ b" by (auto simp: sublist_def)
  then have "doc = a @ sub @ (b @ drop n doc)"
    by (metis append_assoc append_take_drop_id)
  then have "prefix sub (drop (length a) doc)" by (metis append_eq_conv_conj prefixI)
  with find_opt_least[OF assms(1), of "length a"] have "i \<le> length a" by (cases "length a < i") auto
  moreover have "length a + length sub + length b \<le> n"
    using arg_cong[OF ab, of length] by simp
  ultimately show ?thesis by simp
qed

text \<open>
  C2, as the code has it. When both markers occur, the start marker ending at or before
  the first end marker, \<open>update\<close> returns the text up to and including the start marker,
  two newlines, the replacement, one newline, and the text from the end marker on, each of
  the three texts stripped of white space at both ends (\<^verbatim>\<open>strip()\<close>). So the kept prefix
  is the text before the start marker without its leading white space, then the marker;
  the kept suffix is the end marker, then the text after it without its trailing white
  space. White space at the start and at the end of the document is removed as well.
\<close>

theorem update_splice_trimmed:
  assumes "find_opt start_marker doc = Some s" "find_opt end_marker doc = Some e"
    and "s + length start_marker \<le> e"
  shows "update doc r =
           Inr (strip (take (s + length start_marker) doc) @ [newline, newline] @ strip r @
                [newline] @ strip (drop e doc)) \<and>
         strip (take (s + length start_marker) doc) = lstrip (take s doc) @ start_marker \<and>
         strip (drop e doc) = end_marker @ rstrip (drop (e + length end_marker) doc)"
  unfolding update_def splice_found[OF assms(1,2)]
    strip_through_start_marker[OF assms(1)] strip_from_end_marker[OF assms(2)]
  by simp

theorem update_splice_trimmed_witness:
  "find_opt start_marker (str '' pre <!-- ARTICLES --> old <!-- /ARTICLES --> post '') = Some 5 \<and>
   find_opt end_marker (str '' pre <!-- ARTICLES --> old <!-- /ARTICLES --> post '') = Some 27 \<and>
   update (str '' pre <!-- ARTICLES --> old <!-- /ARTICLES --> post '') (str ''NEW'')
     = Inr (str ''pre <!-- ARTICLES -->'' @ [newline, newline] @ str ''NEW'' @ [newline] @
            str ''<!-- /ARTICLES --> post'')"
proof -
  have h1: "find_opt start_marker (str '' pre <!-- ARTICLES --> old <!-- /ARTICLES --> post '') = Some 5"
    by (simp add: start_marker_def)
  have h2: "find_opt end_marker (str '' pre <!-- ARTICLES --> old <!-- /ARTICLES --> post '') = Some 27"
    by (simp add: end_marker_def)
  have h3: "5 + length start_marker \<le> 27" by (simp add: start_marker_def)
  show ?thesis
    using h1 h2 update_splice_trimmed [OF h1 h2 h3, of "str ''NEW''"]
    by (simp add: start_marker_def end_marker_def strip_def lstrip_def rstrip_def isspace_def)
qed

theorem update_right_left_trim_counterexample:
  "find_opt start_marker (str '' <!-- ARTICLES --><!-- /ARTICLES --> '') = Some 1 \<and>
   find_opt end_marker (str '' <!-- ARTICLES --><!-- /ARTICLES --> '') = Some 18 \<and>
   update (str '' <!-- ARTICLES --><!-- /ARTICLES --> '') (str ''x'')
     = Inr (str ''<!-- ARTICLES -->'' @ [newline, newline] @ str ''x'' @ [newline] @
            str ''<!-- /ARTICLES -->'') \<and>
   update (str '' <!-- ARTICLES --><!-- /ARTICLES --> '') (str ''x'')
     \<noteq> Inr (rstrip (take (1 + length start_marker)
                       (str '' <!-- ARTICLES --><!-- /ARTICLES --> '')) @
            [newline, newline] @ strip (str ''x'') @ [newline] @
            lstrip (drop 18 (str '' <!-- ARTICLES --><!-- /ARTICLES --> '')))"
  by (simp add: update_def splice_def py_find_def start_marker_def end_marker_def slice_to_def
      slice_from_def strip_def lstrip_def rstrip_def isspace_def newline_def)

text \<open>
  C10. When both markers occur and the first end marker begins before the end of the first
  start marker, \<open>update\<close> raises nothing, and the text from the beginning of the end marker
  to the end of the start marker, which is not empty, is in the result twice: it ends the
  kept prefix and it begins the kept suffix.
\<close>

theorem update_end_before_start:
  assumes "find_opt start_marker doc = Some s" "find_opt end_marker doc = Some e"
    and "e < s + length start_marker"
  shows "update doc r =
           Inr (lstrip (take e doc) @ drop e (take (s + length start_marker) doc) @
                [newline, newline] @ strip r @ [newline] @
                drop e (take (s + length start_marker) doc) @
                rstrip (drop (s + length start_marker) doc)) \<and>
         strip (take (s + length start_marker) doc) =
           lstrip (take e doc) @ drop e (take (s + length start_marker) doc) \<and>
         strip (drop e doc) =
           drop e (take (s + length start_marker) doc) @
           rstrip (drop (s + length start_marker) doc) \<and>
         length (drop e (take (s + length start_marker) doc)) = s + length start_marker - e"
proof -
  define n where "n = s + length start_marker"
  define span where "span = drop e (take n doc)"
  have nl: "n \<le> length doc" and tn: "take n doc = take s doc @ start_marker"
    using take_through_occurrence[OF assms(1)] by (simp_all add: n_def)
  have en: "e < n" using assms(3) by (simp add: n_def)
  have len: "length span = n - e" using nl by (simp add: span_def)
  then have ne: "span \<noteq> []" using en by auto
  have pre: "take n doc = take e doc @ span"
  proof -
    have "take e (take n doc) = take e doc" using en by (simp add: min_def)
    then show ?thesis unfolding span_def by (metis append_take_drop_id)
  qed
  have suf: "drop e doc = span @ drop n doc"
  proof -
    have "drop e doc = drop e (take n doc @ drop n doc)" by simp
    also have "\<dots> = drop e (take n doc) @ drop n doc"
      using en nl by (simp del: append_take_drop_id)
    finally show ?thesis by (simp add: span_def)
  qed
  have "prefix end_marker (span @ drop n doc)"
    using find_opt_SomeD[OF assms(2)] suf by simp
  then have "hd (span @ drop n doc) = hd end_marker"
    using end_marker_ends(1) by (auto simp: prefix_def)
  then have "hd span = hd end_marker" using ne by simp
  then have h: "\<not> isspace (hd span)" using end_marker_ends(2) by simp
  have "last span = last (take n doc)" using pre ne by simp
  also have "\<dots> = last start_marker" using tn start_marker_ends(1) by simp
  finally have l: "\<not> isspace (last span)" using start_marker_ends(3) by simp
  have k1: "strip (take n doc) = lstrip (take e doc) @ span"
    unfolding pre by (rule strip_keep_end[OF ne h l])
  have k2: "strip (drop e doc) = span @ rstrip (drop n doc)"
    unfolding suf by (rule strip_keep_front[OF ne h l])
  have "update doc r = Inr (strip (take n doc) @ [newline, newline] @ strip r @ [newline] @
                            strip (drop e doc))"
    unfolding update_def n_def by (rule splice_found[OF assms(1,2)])
  then show ?thesis using k1 k2 len unfolding span_def n_def by simp
qed

theorem update_end_before_start_witness:
  "find_opt start_marker (str ''a <!-- /ARTICLES -->mid<!-- ARTICLES --> z'') = Some 23 \<and>
   find_opt end_marker (str ''a <!-- /ARTICLES -->mid<!-- ARTICLES --> z'') = Some 2 \<and>
   update (str ''a <!-- /ARTICLES -->mid<!-- ARTICLES --> z'') (str ''x'')
     = Inr (str ''a <!-- /ARTICLES -->mid<!-- ARTICLES -->'' @ [newline, newline] @ str ''x'' @
            [newline] @ str ''<!-- /ARTICLES -->mid<!-- ARTICLES --> z'')"
proof -
  have h1: "find_opt start_marker (str ''a <!-- /ARTICLES -->mid<!-- ARTICLES --> z'') = Some 23"
    by (simp add: start_marker_def)
  have h2: "find_opt end_marker (str ''a <!-- /ARTICLES -->mid<!-- ARTICLES --> z'') = Some 2"
    by (simp add: end_marker_def)
  have h3: "2 < 23 + length start_marker" by (simp add: start_marker_def)
  show ?thesis
    using h1 h2 update_end_before_start [OF h1 h2 h3, of "str ''x''"]
    by (simp add: start_marker_def end_marker_def strip_def lstrip_def rstrip_def isspace_def)
qed

subsection \<open>ReadmeUpdater.update: idempotence\<close>

lemma update_idempotent_general:
  assumes s: "find_opt start_marker doc = Some s"
    and e: "find_opt end_marker doc = Some e"
    and order: "s + length start_marker \<le> e"
    and r: "\<not> sublist end_marker r"
  shows "\<exists>d. update doc r = Inr d \<and> update d r = Inr d"
proof -
  define p where "p = lstrip (take s doc)"
  define q where "q = rstrip (drop (e + length end_marker) doc)"
  define w where "w = takeWhile isspace (take s doc)"
  define d where "d = p @ start_marker @ [newline, newline] @ strip r @ [newline] @ end_marker @ q"
  have d1: "update doc r = Inr d"
    unfolding d_def p_def q_def by (rule update_found[OF s e])
  have wp: "take s doc = w @ p"
    by (simp add: w_def p_def lstrip_def)
  have tk: "take (s + length start_marker) doc = w @ (p @ start_marker)"
    using take_through_occurrence(1)[OF s] wp by simp
  have sl: "s = length w + length p"
    using arg_cong[OF wp, of length] find_opt_SomeD[OF s] by simp
  have "find_opt start_marker (w @ (p @ start_marker)) = Some s"
    using find_opt_take[OF s, of "s + length start_marker"] tk by simp
  from find_opt_drop_front[OF this] sl
  have s1: "find_opt start_marker (p @ start_marker) = Some (length p)" by simp
  have "\<not> sublist end_marker (take (s + length start_marker) doc)"
    using first_occurrence_within[OF e, of "s + length start_marker"] order
    by (auto simp: length_end_marker)
  then have "\<not> sublist end_marker (p @ start_marker)"
    unfolding tk using sublist_order.order_trans sublist_append_leftI by blast
  then have e1: "find_opt end_marker (p @ start_marker) = None"
    by (simp add: find_opt_None_iff)
  have r1: "find_opt end_marker (strip r) = None"
    using r sublist_strip[of r] sublist_order.order_trans
    by (auto simp: find_opt_None_iff)
  have ds: "d = (p @ start_marker) @ newline # ([] @ newline # (strip r @ newline # (end_marker @ q)))"
    by (simp add: d_def)
  have fs: "find_opt start_marker d = Some (length p)"
    unfolding ds find_opt_sep[OF newline_notin_markers(1)] s1 by simp
  have e0: "find_opt end_marker (end_marker @ q) = Some 0"
    by (rule find_optI) simp_all
  have e00: "find_opt end_marker [] = None"
    using end_marker_ends(1) by simp
  have fe: "find_opt end_marker d = Some (length p + length start_marker + length (strip r) + 3)"
    unfolding ds find_opt_sep[OF newline_notin_markers(2)] e1 r1 e0 e00 by simp
  have ll: "lstrip (take (length p) d) = p"
    by (simp add: d_def p_def lstrip_idem)
  define A where "A = p @ start_marker @ [newline, newline] @ strip r @ [newline] @ end_marker"
  have dA: "d = A @ q" by (simp add: d_def A_def)
  have lA: "length p + length start_marker + length (strip r) + 3 + length end_marker = length A"
    by (simp add: A_def)
  have "drop (length p + length start_marker + length (strip r) + 3 + length end_marker) d = q"
    unfolding lA dA by simp
  then have rr: "rstrip (drop (length p + length start_marker + length (strip r) + 3 + length end_marker) d) = q"
    by (simp add: q_def rstrip_idem)
  have "update d r = Inr d"
    unfolding update_found[OF fs fe] ll rr by (simp add: d_def)
  with d1 show ?thesis by blast
qed

text \<open>
  C3. For a document with exactly one occurrence of each marker, the start marker first,
  and a replacement text that contains neither marker, \<open>update\<close> returns a document on
  which \<open>update\<close> with the same replacement returns that same document.
\<close>

theorem update_idempotent:
  assumes "occurrences start_marker doc = [s]" "occurrences end_marker doc = [e]" "s < e"
    and "\<not> contains start_marker r" "\<not> contains end_marker r"
  shows "\<exists>d. update doc r = Inr d \<and> update d r = Inr d"
proof -
  have fs: "find_opt start_marker doc = Some s" and fe: "find_opt end_marker doc = Some e"
    using assms(1,2) by (simp_all add: occurrences_single_find)
  have "s + length start_marker \<le> e"
    using find_opt_SomeD[OF fs] find_opt_SomeD[OF fe] assms(3) by (simp add: markers_no_overlap)
  moreover have "\<not> sublist end_marker r" using assms(5) by (simp add: contains_iff_sublist)
  ultimately show ?thesis using fs fe by (simp add: update_idempotent_general)
qed

theorem update_idempotent_witness:
  "occurrences start_marker (str ''a <!-- ARTICLES -->b<!-- /ARTICLES --> c'') = [2] \<and>
   occurrences end_marker (str ''a <!-- ARTICLES -->b<!-- /ARTICLES --> c'') = [20] \<and>
   \<not> contains start_marker (str '' NEW '') \<and> \<not> contains end_marker (str '' NEW '') \<and>
   (\<exists>d. update (str ''a <!-- ARTICLES -->b<!-- /ARTICLES --> c'') (str '' NEW '') = Inr d \<and>
        update d (str '' NEW '') = Inr d)"
proof -
  have h1: "occurrences start_marker (str ''a <!-- ARTICLES -->b<!-- /ARTICLES --> c'') = [2]"
    by (simp add: occurrences_def start_marker_def)
  have h2: "occurrences end_marker (str ''a <!-- ARTICLES -->b<!-- /ARTICLES --> c'') = [20]"
    by (simp add: occurrences_def end_marker_def)
  have h3: "(2::nat) < 20" by simp
  have h4: "\<not> contains start_marker (str '' NEW '')"
    by (simp add: contains_def start_marker_def)
  have h5: "\<not> contains end_marker (str '' NEW '')"
    by (simp add: contains_def end_marker_def)
  show ?thesis using h1 h2 h4 h5 update_idempotent [OF h1 h2 h3 h4 h5] by blast
qed

end
